theory Spec2Isabelle
  imports Complex_Main
begin

section \<open>Strings of the host language\<close>

text \<open>
  The program is Python. A \<open>str\<close> is modelled as a \<^typ>\<open>string\<close>; the characters of
  the model are the 8-bit characters of HOL, and the classifications the program relies on
  (\<open>str.isspace\<close>, \<open>str.upper\<close>) are those of Python on the ASCII range. Characters above
  127 are neither whitespace nor letters in the model.
\<close>

definition is_space :: "char \<Rightarrow> bool" where
  \<comment> \<open>\<open>str.isspace\<close> on ASCII: TAB, LF, VT, FF, CR, FS, GS, RS, US and the blank.\<close>
  "is_space c = (let n = (of_char c :: nat) in (9 \<le> n \<and> n \<le> 13) \<or> (28 \<le> n \<and> n \<le> 32))"

definition strip :: "string \<Rightarrow> string" where
  \<comment> \<open>\<open>s.strip()\<close>: whitespace removed at both ends.\<close>
  "strip s = rev (dropWhile is_space (rev (dropWhile is_space s)))"

fun split_acc :: "string \<Rightarrow> string \<Rightarrow> string list" where
  "split_acc cur [] = (if cur = [] then [] else [cur])"
| "split_acc cur (c # cs) =
     (if is_space c then (if cur = [] then split_acc [] cs else cur # split_acc [] cs)
      else split_acc (cur @ [c]) cs)"

definition py_split :: "string \<Rightarrow> string list" where
  \<comment> \<open>\<open>s.split()\<close>: the maximal runs of non-whitespace characters, in order.\<close>
  "py_split s = split_acc [] s"

fun join :: "string \<Rightarrow> string list \<Rightarrow> string" where
  \<comment> \<open>\<open>sep.join(xs)\<close>\<close>
  "join sep [] = []"
| "join sep [x] = x"
| "join sep (x # y # ys) = x @ sep @ join sep (y # ys)"

definition py_slice :: "'a list \<Rightarrow> int \<Rightarrow> int \<Rightarrow> 'a list" where
  \<comment> \<open>\<open>xs[a:b]\<close>: a negative bound counts from the end, then both are clamped to
      \<open>0 .. len(xs)\<close>; the result is empty when the bounds cross.\<close>
  "py_slice xs a b =
     (let n = int (length xs);
          a1 = (if a < 0 then a + n else a);
          a2 = (if a1 < 0 then 0 else if a1 > n then n else a1);
          b1 = (if b < 0 then b + n else b);
          b2 = (if b1 < 0 then 0 else if b1 > n then n else b1)
      in take (nat (b2 - a2)) (drop (nat a2) xs))"

section \<open>The text chunker\<close>

text \<open>
  \<^verbatim>\<open>
  def split_text(text: str, chunk_size: int = 800, overlap: int = 100):
      if not text:
          return []
      words = text.split()
      if not words:
          return []
      chunks = []
      i = 0
      while i < len(words):
          chunk = " ".join(words[i:i + chunk_size])
          chunks.append(chunk)
          i += chunk_size - overlap
          if i >= len(words):
              break
      return chunks
  \<close>
  The loop does not end when \<open>chunk_size - overlap \<le> 0\<close>, so it is a partial function
  into \<open>option\<close>: \<open>None\<close> is "does not return".
\<close>

partial_function (option) split_loop ::
    "string list \<Rightarrow> int \<Rightarrow> int \<Rightarrow> int \<Rightarrow> string list \<Rightarrow> string list option" where
  "split_loop words chunk_size overlap i chunks =
     (if i < int (length words) then
        (let chunk = join '' '' (py_slice words i (i + chunk_size));
             chunks1 = chunks @ [chunk];
             i1 = i + (chunk_size - overlap)
         in if i1 \<ge> int (length words) then Some chunks1
            else split_loop words chunk_size overlap i1 chunks1)
      else Some chunks)"

definition split_text :: "string \<Rightarrow> int \<Rightarrow> int \<Rightarrow> string list option" where
  "split_text text chunk_size overlap =
     (if text = [] then Some []
      else let words = py_split text in
        if words = [] then Some []
        else split_loop words chunk_size overlap 0 [])"


subsection \<open>Auxiliary notions for the chunker\<close>

definition chunk_at :: "string list \<Rightarrow> int \<Rightarrow> int \<Rightarrow> string" where
  \<comment> \<open>the chunk the loop body builds at index \<open>i\<close>\<close>
  "chunk_at words chunk_size i = join '' '' (py_slice words i (i + chunk_size))"

definition iterations :: "int \<Rightarrow> int \<Rightarrow> nat" where
  \<comment> \<open>\<open>ceil(n / step)\<close> in integer arithmetic, for \<open>step > 0\<close>\<close>
  "iterations n step = nat (- ((- n) div step))"

fun reassemble :: "nat \<Rightarrow> string list \<Rightarrow> string list" where
  \<comment> \<open>the words of the first chunk, then the words of every later chunk without its
      first \<open>overlap\<close> words\<close>
  "reassemble overlap [] = []"
| "reassemble overlap (c # cs) = py_split c @ concat (map (\<lambda>d. drop overlap (py_split d)) cs)"

definition claimed_chunk_count :: "nat \<Rightarrow> int \<Rightarrow> int \<Rightarrow> int" where
  \<comment> \<open>the chunk count as the specification words it: \<open>ceil((n - o) / (w - o))\<close>\<close>
  "claimed_chunk_count n w ov = \<lceil>(real n - real_of_int ov) / real_of_int (w - ov)\<rceil>"

section \<open>The response formatter\<close>

definition startswith :: "string \<Rightarrow> string \<Rightarrow> bool" where
  \<comment> \<open>\<open>s.startswith(p)\<close>\<close>
  "startswith s p = (take (length p) s = p)"

fun contains :: "string \<Rightarrow> string \<Rightarrow> bool" where
  \<comment> \<open>\<open>sub in s\<close>: \<open>sub\<close> occurs in \<open>s\<close> as a contiguous substring\<close>
  "contains sub [] = (sub = [])"
| "contains sub (c # cs) = (startswith (c # cs) sub \<or> contains sub cs)"

definition upper_char :: "char \<Rightarrow> char" where
  "upper_char c = (let n = (of_char c :: nat) in if 97 \<le> n \<and> n \<le> 122 then char_of (n - 32) else c)"

definition upper :: "string \<Rightarrow> string" where
  \<comment> \<open>\<open>s.upper()\<close> on ASCII\<close>
  "upper s = map upper_char s"

fun split_on :: "char \<Rightarrow> string \<Rightarrow> string list" where
  \<comment> \<open>\<open>s.split(d)\<close> for a one-character separator: empty pieces are kept\<close>
  "split_on d [] = [[]]"
| "split_on d (c # cs) =
     (if c = d then [] # split_on d cs
      else (case split_on d cs of [] \<Rightarrow> [[c]] | l # ls \<Rightarrow> (c # l) # ls))"

definition newline :: char where
  "newline = CHR 0x0A"

datatype label =
  KEY_CONCEPT | MATHEMATICAL_FORMULATION | MATHEMATICAL_INTUITION | PRACTICAL_IMPLICATIONS | SUMMARY

fun section_name :: "label \<Rightarrow> string" where
  "section_name KEY_CONCEPT = ''KEY CONCEPT''"
| "section_name MATHEMATICAL_FORMULATION = ''MATHEMATICAL FORMULATION''"
| "section_name MATHEMATICAL_INTUITION = ''MATHEMATICAL INTUITION''"
| "section_name PRACTICAL_IMPLICATIONS = ''PRACTICAL IMPLICATIONS''"
| "section_name SUMMARY = ''SUMMARY''"

definition section_order :: "label list" where
  \<comment> \<open>the keys of the dictionary \<open>sections\<close>, in insertion order\<close>
  "section_order =
     [KEY_CONCEPT, MATHEMATICAL_FORMULATION, MATHEMATICAL_INTUITION, PRACTICAL_IMPLICATIONS, SUMMARY]"

text \<open>
  The dictionary \<open>sections\<close> always has exactly the five keys, so it is a total function on
  \<^typ>\<open>label\<close>. The loop body is
  \<^verbatim>\<open>
      line = line.strip()
      if not line:
          continue
      line_upper = line.upper()
      if "KEY CONCEPT" in line_upper or line.startswith("1."):
          current_section = "KEY CONCEPT"
      elif "MATHEMATICAL FORMULATION" in line_upper or line.startswith("2."):
          current_section = "MATHEMATICAL FORMULATION"
      elif "MATHEMATICAL INTUITION" in line_upper or line.startswith("3."):
          current_section = "MATHEMATICAL INTUITION"
      elif "PRACTICAL IMPLICATIONS" in line_upper or line.startswith("4."):
          current_section = "PRACTICAL IMPLICATIONS"
      elif "SUMMARY" in line_upper or line.startswith("5."):
          current_section = "SUMMARY"
      elif current_section and line:
          if sections[current_section]:
              sections[current_section] += " " + line
          else:
              sections[current_section] = line
  \<close>
  The first five branches only choose the current section; \<open>detect_header\<close> is that choice.
\<close>

definition detect_header :: "string \<Rightarrow> label option" where
  "detect_header line =
     (let line_upper = upper line in
      if contains ''KEY CONCEPT'' line_upper \<or> startswith line ''1.'' then Some KEY_CONCEPT
      else if contains ''MATHEMATICAL FORMULATION'' line_upper \<or> startswith line ''2.''
        then Some MATHEMATICAL_FORMULATION
      else if contains ''MATHEMATICAL INTUITION'' line_upper \<or> startswith line ''3.''
        then Some MATHEMATICAL_INTUITION
      else if contains ''PRACTICAL IMPLICATIONS'' line_upper \<or> startswith line ''4.''
        then Some PRACTICAL_IMPLICATIONS
      else if contains ''SUMMARY'' line_upper \<or> startswith line ''5.'' then Some SUMMARY
      else None)"

type_synonym sections = "label \<Rightarrow> string"

definition process_line :: "label option \<times> sections \<Rightarrow> string \<Rightarrow> label option \<times> sections" where
  "process_line st line0 =
     (let line = strip line0 in
      if line = [] then st
      else (case detect_header line of
              Some s \<Rightarrow> (Some s, snd st)
            | None \<Rightarrow>
                (case fst st of
                   None \<Rightarrow> st
                 | Some c \<Rightarrow>
                     if snd st c \<noteq> [] then (Some c, (snd st)(c := snd st c @ '' '' @ line))
                     else (Some c, (snd st)(c := line)))))"

definition parse_sections :: "string \<Rightarrow> sections" where
  \<comment> \<open>the dictionary after the loop over \<open>raw.split('\n')\<close>\<close>
  "parse_sections raw = snd (foldl process_line (None, \<lambda>_. []) (split_on newline raw))"

definition placeholder :: string where
  "placeholder = ''*Information not specified in response*''"

definition report_header :: string where
  \<comment> \<open>\<open>"## \<dots> Research Paper Analysis\n\n"\<close>; the pictograph U+1F4CA in UTF-8\<close>
  "report_header =
     ''## '' @ [CHR 0xF0, CHR 0x9F, CHR 0x93, CHR 0x8A] @ '' Research Paper Analysis'' @ [newline, newline]"

definition error_mark :: string where
  \<comment> \<open>\<open>"**\<dots> "\<close>; the cross mark U+274C in UTF-8\<close>
  "error_mark = ''**'' @ [CHR 0xE2, CHR 0x9D, CHR 0x8C] @ '' ''"

definition content_block :: "label \<Rightarrow> string \<Rightarrow> string" where
  \<comment> \<open>\<open>f"### {section}\n{content.strip()}\n\n"\<close>\<close>
  "content_block s content = ''### '' @ section_name s @ [newline] @ strip content @ [newline, newline]"

definition placeholder_block :: "label \<Rightarrow> string" where
  \<comment> \<open>\<open>f"### {section}\n*Information not specified in response*\n\n"\<close>\<close>
  "placeholder_block s = ''### '' @ section_name s @ [newline] @ placeholder @ [newline, newline]"

definition render_section :: "string \<Rightarrow> sections \<Rightarrow> label \<Rightarrow> string" where
  "render_section raw secs s =
     (let content = secs s in
      if content \<noteq> [] \<and> strip content \<noteq> [] then content_block s content
      else if strip raw \<noteq> [] then placeholder_block s
      else [])"

definition format_response :: "string \<Rightarrow> string" where
  "format_response raw =
     (if startswith raw ''Error:'' \<or> startswith raw ''API Error:'' then error_mark @ raw @ ''**''
      else report_header @ concat (map (render_section raw (parse_sections raw)) section_order))"

subsection \<open>Auxiliary notions for the formatter\<close>

definition content_lines :: "string \<Rightarrow> string list" where
  \<comment> \<open>the lines the loop does not skip: stripped and non-empty\<close>
  "content_lines raw = filter (\<lambda>l. l \<noteq> []) (map strip (split_on newline raw))"

definition follows_label :: "label \<Rightarrow> string list \<Rightarrow> nat \<Rightarrow> bool" where
  \<comment> \<open>position \<open>j\<close> lies strictly after a label line of \<open>s\<close>, with no label line in between\<close>
  "follows_label s ls j =
     (\<exists>i\<in>set [0..<j]. detect_header (ls ! i) = Some s \<and>
        (\<forall>k\<in>set [Suc i..<j]. detect_header (ls ! k) = None))"

definition section_lines :: "label \<Rightarrow> string list \<Rightarrow> string list" where
  \<comment> \<open>the lines that are no label lines and lie strictly after a label line of \<open>s\<close> and before
      the next label line\<close>
  "section_lines s ls =
     map (\<lambda>j. ls ! j)
       (filter (\<lambda>j. detect_header (ls ! j) = None \<and> follows_label s ls j) [0..<length ls])"

fun current_after :: "string list \<Rightarrow> label option" where
  \<comment> \<open>the section of the last label line, if any\<close>
  "current_after [] = None"
| "current_after (l # ls) =
     (case current_after ls of Some s \<Rightarrow> Some s | None \<Rightarrow> detect_header l)"

subsection \<open>Sample responses\<close>

definition prompt_layout_response :: string where
  \<comment> \<open>a response in the layout \<open>ANSWER_PROMPT\<close> asks for: \<open>1. KEY CONCEPT: [\<dots>]\<close> and so on,
      every section on the line of its label\<close>
  "prompt_layout_response =
     ''1. KEY CONCEPT: a'' @ [newline] @ ''2. MATHEMATICAL FORMULATION: b'' @ [newline] @
     ''3. MATHEMATICAL INTUITION: c'' @ [newline] @ ''4. PRACTICAL IMPLICATIONS: d'' @ [newline] @
     ''5. SUMMARY: e''"

definition five_sections :: string where
  \<comment> \<open>five ordinal lines, each followed by one line of content\<close>
  "five_sections =
     ''1.'' @ [newline] @ ''a'' @ [newline] @ ''2.'' @ [newline] @ ''b'' @ [newline] @
     ''3.'' @ [newline] @ ''c'' @ [newline] @ ''4.'' @ [newline] @ ''d'' @ [newline] @
     ''5.'' @ [newline] @ ''e''"

section \<open>The inference request\<close>

text \<open>
  The two HTTP calls are the program's only contact with the network. What a call does is an
  input of the model: it raises an exception or returns a response, of which the program reads
  the status code, the body text and the body parsed as JSON (which raises when the body is no
  JSON).
\<close>

datatype json =
  JNull | JBool bool | JInt int | JFloat string | JStr string
  | JArr "json list" | JObj "(string \<times> json) list"

datatype exn =
    Timeout \<comment> \<open>an instance of \<open>requests.exceptions.Timeout\<close>\<close>
  | ConnectionError \<comment> \<open>an instance of \<open>requests.exceptions.ConnectionError\<close> that is no \<open>Timeout\<close>\<close>
  | OtherException string \<comment> \<open>any other \<open>Exception\<close>, with its \<open>str(e)\<close>\<close>

record response =
  status_code :: int
  body_text :: string \<comment> \<open>\<open>response.text\<close>\<close>
  json :: "string + json" \<comment> \<open>\<open>response.json()\<close>: \<open>Inl\<close> is the message of the exception it raises\<close>

datatype http_result = Raises exn | Returns response

record network =
  base_url :: string \<comment> \<open>\<open>OLLAMA_BASE_URL\<close>\<close>
  get_tags :: http_result \<comment> \<open>\<open>requests.get(OLLAMA_LIST_URL, timeout=10)\<close>\<close>
  post_generate :: "string \<Rightarrow> http_result" \<comment> \<open>\<open>requests.post(OLLAMA_GENERATE_URL, \<dots>)\<close> for a prompt\<close>

definition MODEL_NAME :: string where
  "MODEL_NAME = ''paper-analyzer''"

definition py_get :: "json \<Rightarrow> string \<Rightarrow> json \<Rightarrow> json option" where
  \<comment> \<open>\<open>v.get(key, dflt)\<close>: only a dictionary has \<open>get\<close>; \<open>None\<close> is the \<open>AttributeError\<close>.
      A key given twice has its last value.\<close>
  "py_get v key dflt =
     (case v of
        JObj kvs \<Rightarrow> (case map_of (rev kvs) key of Some x \<Rightarrow> Some x | None \<Rightarrow> Some dflt)
      | _ \<Rightarrow> None)"

definition py_iter :: "json \<Rightarrow> json list option" where
  \<comment> \<open>the elements a \<open>for\<close> over \<open>v\<close> visits; \<open>None\<close> is the \<open>TypeError\<close>\<close>
  "py_iter v =
     (case v of
        JArr xs \<Rightarrow> Some xs
      | JStr s \<Rightarrow> Some (map (\<lambda>c. JStr [c]) s)
      | JObj kvs \<Rightarrow> Some (map JStr (rev (remdups (rev (map fst kvs)))))
      | _ \<Rightarrow> None)"

definition py_in :: "string \<Rightarrow> json \<Rightarrow> bool option" where
  \<comment> \<open>\<open>s in v\<close> for a string \<open>s\<close>; \<open>None\<close> is the \<open>TypeError\<close>\<close>
  "py_in s v =
     (case v of
        JStr t \<Rightarrow> Some (contains s t)
      | JArr xs \<Rightarrow> Some (JStr s \<in> set xs)
      | JObj kvs \<Rightarrow> Some (s \<in> set (map fst kvs))
      | _ \<Rightarrow> None)"

fun any_in :: "string \<Rightarrow> json list \<Rightarrow> bool option" where
  \<comment> \<open>\<open>any(s in name for name in names)\<close>: stops at the first hit\<close>
  "any_in s [] = Some False"
| "any_in s (name # names) =
     (case py_in s name of
        None \<Rightarrow> None
      | Some True \<Rightarrow> Some True
      | Some False \<Rightarrow> any_in s names)"

definition check_model_ready :: "http_result \<Rightarrow> bool" where
  \<comment> \<open>every exception inside is caught by the bare \<open>except\<close> and gives \<open>False\<close>\<close>
  "check_model_ready r =
     (case r of
        Raises e \<Rightarrow> False
      | Returns resp \<Rightarrow>
          if status_code resp = 200 then
            (case json resp of
               Inl msg \<Rightarrow> False
             | Inr body \<Rightarrow>
                 (case py_get body ''models'' (JArr []) of
                    None \<Rightarrow> False
                  | Some models \<Rightarrow>
                      (case py_iter models of
                         None \<Rightarrow> False
                       | Some ms \<Rightarrow>
                           (case those (map (\<lambda>model. py_get model ''name'' (JStr [])) ms) of
                              None \<Rightarrow> False
                            | Some model_names \<Rightarrow>
                                (case any_in MODEL_NAME model_names of
                                   Some True \<Rightarrow> True
                                 | _ \<Rightarrow> False)))))
          else False)"

fun digits :: "nat \<Rightarrow> string" where
  "digits n = (if n < 10 then [char_of (48 + n)] else digits (n div 10) @ [char_of (48 + n mod 10)])"

definition str_int :: "int \<Rightarrow> string" where
  \<comment> \<open>\<open>str(i)\<close> for an integer\<close>
  "str_int i = (if i < 0 then ''-'' @ digits (nat (- i)) else digits (nat i))"

definition type_name :: "json \<Rightarrow> string" where
  "type_name v =
     (case v of JNull \<Rightarrow> ''NoneType'' | JBool b \<Rightarrow> ''bool'' | JInt i \<Rightarrow> ''int''
      | JFloat f \<Rightarrow> ''float'' | JStr s \<Rightarrow> ''str'' | JArr xs \<Rightarrow> ''list'' | JObj kvs \<Rightarrow> ''dict'')"

definition not_ready_message :: string where
  "not_ready_message = ''Error: AI model is not ready yet. Please wait a moment and try again.''"

definition timeout_message :: string where
  "timeout_message = ''Error: Request timeout - the AI service is taking too long to respond.''"

definition connection_message :: "string \<Rightarrow> string" where
  "connection_message url =
     ''Error: Cannot connect to AI service at '' @ url @ ''. Please check if the backend is running.''"

definition api_error_message :: "int \<Rightarrow> string \<Rightarrow> string" where
  "api_error_message status body = ''API Error: '' @ str_int status @ '' - '' @ body"

definition query_ollama :: "network \<Rightarrow> string \<Rightarrow> json" where
  \<comment> \<open>the value returned; every exception is caught and turned into a string\<close>
  "query_ollama net prompt =
     (if \<not> check_model_ready (get_tags net) then JStr not_ready_message
      else
        (case post_generate net prompt of
           Raises Timeout \<Rightarrow> JStr timeout_message
         | Raises ConnectionError \<Rightarrow> JStr (connection_message (base_url net))
         | Raises (OtherException msg) \<Rightarrow> JStr (''Error: '' @ msg)
         | Returns resp \<Rightarrow>
             if status_code resp = 200 then
               (case json resp of
                  Inl msg \<Rightarrow> JStr (''Error: '' @ msg)
                | Inr result \<Rightarrow>
                    (case py_get result ''response'' (JStr ''No response from model.'') of
                       None \<Rightarrow>
                         JStr (''Error: '' @ [CHR 0x27] @ type_name result @ [CHR 0x27] @
                               '' object has no attribute '' @ [CHR 0x27] @ ''get'' @ [CHR 0x27])
                     | Some v \<Rightarrow> v))
             else JStr (api_error_message (status_code resp) (body_text resp))))"

section \<open>The session\<close>

record session_state =
  chunks :: "string list"
  processed :: bool
  model_ready :: bool

definition initial_state :: session_state where
  "initial_state = \<lparr>chunks = [], processed = False, model_ready = False\<rparr>"

definition extract_text_from_pdf :: "string list option \<Rightarrow> string" where
  \<comment> \<open>the argument is what the PDF library delivers: \<open>None\<close> when it raises, else the text
      extracted from each page\<close>
  "extract_text_from_pdf uploaded_file =
     (case uploaded_file of
        None \<Rightarrow> []
      | Some pages \<Rightarrow> strip (concat (map (\<lambda>extracted. extracted @ [newline])
                                     (filter (\<lambda>extracted. extracted \<noteq> []) pages))))"

datatype action =
    Rerun \<comment> \<open>the script runs with no button pressed\<close>
  | ProcessPaper "string list option option" \<comment> \<open>the uploaded file, if any\<close>
  | Analyze string
  | GenerateSummary
  | GenerateQuiz

text \<open>
  One run of the script, as a function on the session state. The three analysis buttons build a
  prompt, call \<open>query_ollama\<close> and render the answer; they assign nothing in the session state.
  \<open>None\<close> is a run that does not end.
\<close>

definition refresh_model_ready :: "network \<Rightarrow> session_state \<Rightarrow> session_state" where
  \<comment> \<open>the block \<open>if not st.session_state.model_ready: \<dots>\<close> at the start of \<open>main\<close>\<close>
  "refresh_model_ready net s =
     (if \<not> model_ready s then
        (if check_model_ready (get_tags net) then s\<lparr>model_ready := True\<rparr> else s)
      else s)"

definition main :: "network \<Rightarrow> action \<Rightarrow> session_state \<Rightarrow> session_state option" where
  "main net a s =
     (let s1 = refresh_model_ready net s
      in case a of
           ProcessPaper (Some uploaded_file) \<Rightarrow>
             (let text = extract_text_from_pdf uploaded_file in
              if text \<noteq> [] \<and> length text > 100 then
                (case split_text text 800 100 of
                   None \<Rightarrow> None
                 | Some cs \<Rightarrow> Some (s1\<lparr>chunks := cs, processed := True\<rparr>))
              else Some s1)
         | _ \<Rightarrow> Some s1)"

definition session_inv :: "session_state \<Rightarrow> bool" where
  "session_inv s = (processed s \<longrightarrow> chunks s \<noteq> [])"

subsection \<open>Sample inputs of the session\<close>

definition ready_tags :: http_result where
  \<comment> \<open>a listing that names the model\<close>
  "ready_tags =
     Returns \<lparr>status_code = 200, body_text = [],
              json = Inr (JObj [(''models'', JArr [JObj [(''name'', JStr ''paper-analyzer:latest'')]])])\<rparr>"

definition failing_network :: network where
  \<comment> \<open>the model is listed, and the generation endpoint answers with HTTP 500\<close>
  "failing_network =
     \<lparr>base_url = ''http://localhost:11434'', get_tags = ready_tags,
      post_generate = (\<lambda>prompt. Returns \<lparr>status_code = 500, body_text = ''oops'', json = Inl []\<rparr>)\<rparr>"

definition long_page :: string where
  \<comment> \<open>a page of 60 two-letter words\<close>
  "long_page = concat (replicate 60 ''ab '')"

section \<open>Properties of the string operations\<close>

lemma iterations_ceiling: "iterations n s = nat \<lceil>real_of_int n / real_of_int s\<rceil>"
  unfolding iterations_def by (simp add: ceiling_divide_eq_div)

lemma iterations_0: "0 < s \<Longrightarrow> n \<le> 0 \<Longrightarrow> iterations n s = 0"
  unfolding iterations_def
  by (simp add: pos_imp_zdiv_nonneg_iff)

lemma iterations_1: "0 < s \<Longrightarrow> 0 < n \<Longrightarrow> n \<le> s \<Longrightarrow> iterations n s = 1"
proof -
  assume a: "0 < s" "0 < n" "n \<le> s"
  have "(- n) div s = -1"
    using a by (metis add.right_inverse add_le_cancel_right div_minus_right div_pos_neg_trivial)
  then show ?thesis unfolding iterations_def by simp
qed

lemma iterations_Suc: "0 < s \<Longrightarrow> s < n \<Longrightarrow> iterations n s = Suc (iterations (n - s) s)"
proof -
  assume a: "0 < s" "s < n"
  have "(- (n - s)) div s = (- n + s) div s" by simp
  also have "\<dots> = (- n) div s + 1" using a by (metis add.commute div_add_self1 less_irrefl)
  finally have e: "(- (n - s)) div s = (- n) div s + 1" .
  have "(- n) div s < 0" using a by (simp add: div_neg_pos_less0)
  then show ?thesis unfolding iterations_def e by simp
qed

lemma split_loop_closed:
  assumes s: "0 < chunk_size - overlap"
  shows "split_loop words chunk_size overlap i cs =
         Some (cs @ map (\<lambda>k. chunk_at words chunk_size (i + int k * (chunk_size - overlap)))
                 [0..<iterations (int (length words) - i) (chunk_size - overlap)])"
proof (induction "nat (int (length words) - i)" arbitrary: i cs rule: less_induct)
  case less
  let ?n = "int (length words)" and ?s = "chunk_size - overlap"
  show ?case
  proof (cases "i < ?n")
    case False
    then have "iterations (?n - i) ?s = 0" using s by (simp add: iterations_0)
    with False show ?thesis by (simp add: split_loop.simps)
  next
    case True
    show ?thesis
    proof (cases "i + ?s \<ge> ?n")
      case True
      with \<open>i < ?n\<close> have "iterations (?n - i) ?s = 1" using s by (simp add: iterations_1)
      with True \<open>i < ?n\<close> show ?thesis
        by (subst split_loop.simps) (simp add: chunk_at_def Let_def)
    next
      case False
      then have lt: "nat (?n - (i + ?s)) < nat (?n - i)" using s by simp
      have it: "iterations (?n - i) ?s = Suc (iterations (?n - (i + ?s)) ?s)"
        using iterations_Suc[of ?s "?n - i"] s False by (simp add: algebra_simps)
      have "split_loop words chunk_size overlap i cs =
            split_loop words chunk_size overlap (i + ?s) (cs @ [chunk_at words chunk_size i])"
        using False \<open>i < ?n\<close> by (subst split_loop.simps) (simp add: chunk_at_def Let_def)
      also note less[OF lt]
      finally show ?thesis
        unfolding it by (simp add: map_upt_Suc algebra_simps del: upt_Suc)
    qed
  qed
qed

lemma py_slice_nonneg:
  "0 \<le> a \<Longrightarrow> a \<le> b \<Longrightarrow> py_slice xs a b = take (nat (b - a)) (drop (nat a) xs)"
  unfolding py_slice_def Let_def
  by (auto simp: min_def nat_diff_distrib)

lemma chunk_at_nat:
  assumes "0 \<le> overlap" "overlap < chunk_size"
  shows "chunk_at words chunk_size (int k * (chunk_size - overlap)) =
         join '' '' (take (nat chunk_size) (drop (k * nat (chunk_size - overlap)) words))"
proof -
  have "nat (int k * (chunk_size - overlap)) = k * nat (chunk_size - overlap)"
    by (simp add: nat_mult_distrib)
  then show ?thesis
    using assms unfolding chunk_at_def by (simp add: py_slice_nonneg)
qed

lemma is_space_blank: "is_space CHR '' ''"
  by (simp add: is_space_def)

lemma split_acc_words:
  "\<forall>c\<in>set cur. \<not> is_space c \<Longrightarrow> w \<in> set (split_acc cur s) \<Longrightarrow> w \<noteq> [] \<and> (\<forall>c\<in>set w. \<not> is_space c)"
proof (induction s arbitrary: cur)
  case Nil
  from Nil(2) have "w = cur \<and> cur \<noteq> []" by (cases "cur = []") simp_all
  with Nil(1) show ?case by simp
next
  case (Cons a s)
  show ?case
  proof (cases "is_space a")
    case True
    with Cons.prems(2) have "w \<in> set (if cur = [] then split_acc [] s else cur # split_acc [] s)"
      by simp
    then consider (cur) "w = cur" "cur \<noteq> []" | (rest) "w \<in> set (split_acc [] s)"
      by (cases "cur = []") auto
    then show ?thesis
    proof cases
      case cur
      with Cons.prems(1) show ?thesis by simp
    next
      case rest
      then show ?thesis using Cons.IH[of "[]"] by simp
    qed
  next
    case False
    with Cons.prems(2) have m: "w \<in> set (split_acc (cur @ [a]) s)" by simp
    have "\<forall>c\<in>set (cur @ [a]). \<not> is_space c" using Cons.prems(1) False by simp
    from Cons.IH[OF this m] show ?thesis .
  qed
qed

lemma py_split_words:
  "w \<in> set (py_split s) \<Longrightarrow> w \<noteq> [] \<and> (\<forall>c\<in>set w. \<not> is_space c)"
  unfolding py_split_def using split_acc_words[of "[]" w s] by simp

lemma split_acc_word:
  "\<forall>c\<in>set w. \<not> is_space c \<Longrightarrow> split_acc cur (w @ rest) = split_acc (cur @ w) rest"
  by (induction w arbitrary: cur) auto

lemma split_acc_Nil_iff:
  "split_acc cur s = [] \<longleftrightarrow> cur = [] \<and> (\<forall>c\<in>set s. is_space c)"
  by (induction s arbitrary: cur) auto

lemma py_split_Nil_iff: "py_split s = [] \<longleftrightarrow> (\<forall>c\<in>set s. is_space c)"
  unfolding py_split_def by (simp add: split_acc_Nil_iff)

lemma py_split_join:
  "\<forall>w\<in>set ws. w \<noteq> [] \<and> (\<forall>c\<in>set w. \<not> is_space c) \<Longrightarrow> py_split (join '' '' ws) = ws"
proof (induction "'' ''" ws rule: join.induct)
  case 1
  then show ?case by (simp add: py_split_def)
next
  case (2 x)
  then show ?case
    using split_acc_word[of x "[]" "[]"] by (simp add: py_split_def)
next
  case (3 x y ys)
  then have "split_acc [] (x @ '' '' @ join '' '' (y # ys)) = split_acc x ('' '' @ join '' '' (y # ys))"
    using split_acc_word[of x "[]"] by simp
  also have "\<dots> = x # split_acc [] (join '' '' (y # ys))"
    using 3 by (simp add: is_space_blank)
  finally show ?case using 3 by (simp add: py_split_def)
qed

lemma py_split_chunk:
  "py_split (join '' '' (take a (drop b (py_split s)))) = take a (drop b (py_split s))"
proof (rule py_split_join, rule ballI)
  fix w assume "w \<in> set (take a (drop b (py_split s)))"
  then have "w \<in> set (py_split s)"
    by (meson in_set_dropD in_set_takeD)
  then show "w \<noteq> [] \<and> (\<forall>c\<in>set w. \<not> is_space c)"
    by (rule py_split_words)
qed

lemma split_text_closed:
  assumes "0 < chunk_size - overlap"
  shows "split_text text chunk_size overlap =
         Some (map (\<lambda>k. chunk_at (py_split text) chunk_size (int k * (chunk_size - overlap)))
                 [0..<iterations (int (length (py_split text))) (chunk_size - overlap)])"
proof (cases "py_split text = []")
  case True
  then show ?thesis using assms
    by (simp add: split_text_def iterations_0)
next
  case False
  then have "text \<noteq> []" by (auto simp: py_split_def)
  with False show ?thesis
    using split_loop_closed[OF assms, of "py_split text" 0 "[]"]
    by (simp add: split_text_def Let_def)
qed

lemma split_text_windows:
  assumes "0 \<le> overlap" "overlap < chunk_size"
  shows "split_text text chunk_size overlap =
         Some (map (\<lambda>k. join '' '' (take (nat chunk_size)
                           (drop (k * nat (chunk_size - overlap)) (py_split text))))
                 [0..<iterations (int (length (py_split text))) (chunk_size - overlap)])"
  using assms by (simp add: split_text_closed chunk_at_nat)

lemma iterations_cover: "0 < s \<Longrightarrow> n \<le> int (iterations n s) * s"
proof -
  assume s: "0 < s"
  have "((- n) div s) * s \<le> - n"
    using pos_mod_sign[OF s, of "- n"] by (simp add: minus_mod_eq_div_mult[symmetric])
  then have a: "n \<le> (- ((- n) div s)) * s" by simp
  show ?thesis
  proof (cases "0 \<le> - ((- n) div s)")
    case True
    then show ?thesis using a by (simp add: iterations_def)
  next
    case False
    then have z: "iterations n s = 0" by (simp add: iterations_def)
    from False have "(- ((- n) div s)) * s \<le> 0" using s by (simp add: mult_le_0_iff)
    with a have "n \<le> 0" by simp
    then show ?thesis unfolding z by simp
  qed
qed

lemma tile_windows:
  "concat (map (\<lambda>k. take s (drop (a + k * s) xs)) [0..<j]) = take (j * s) (drop a xs)"
proof (induction j)
  case 0
  then show ?case by simp
next
  case (Suc j)
  have "concat (map (\<lambda>k. take s (drop (a + k * s) xs)) [0..<Suc j]) =
        take (j * s) (drop a xs) @ take s (drop (a + j * s) xs)"
    using Suc by simp
  also have "\<dots> = take (j * s) (drop a xs) @ take s (drop (j * s) (drop a xs))"
    by (simp add: add.commute)
  also have "\<dots> = take (j * s + s) (drop a xs)"
    by (rule take_add[symmetric])
  also have "j * s + s = Suc j * s" by simp
  finally show ?case .
qed

lemma window_params:
  assumes "0 \<le> overlap" "overlap < chunk_size"
  shows "nat chunk_size = nat overlap + nat (chunk_size - overlap)"
    and "0 < nat (chunk_size - overlap)"
    and "length (py_split text) \<le>
           iterations (int (length (py_split text))) (chunk_size - overlap) * nat (chunk_size - overlap)"
proof -
  show "nat chunk_size = nat overlap + nat (chunk_size - overlap)" using assms by simp
  show "0 < nat (chunk_size - overlap)" using assms by simp
  have "int (length (py_split text)) \<le>
        int (iterations (int (length (py_split text))) (chunk_size - overlap)) * (chunk_size - overlap)"
    using assms by (simp add: iterations_cover)
  also have "\<dots> = int (iterations (int (length (py_split text))) (chunk_size - overlap) * nat (chunk_size - overlap))"
    using assms by simp
  finally show "length (py_split text) \<le>
           iterations (int (length (py_split text))) (chunk_size - overlap) * nat (chunk_size - overlap)"
    by (simp only: of_nat_le_iff)
qed

lemma reassemble_windows:
  assumes W: "W = ov + S"
  shows "reassemble ov (map (\<lambda>k. join '' '' (take W (drop (k * S) (py_split text)))) [0..<Suc m]) =
         take (W + m * S) (py_split text)"
proof -
  let ?ws = "py_split text"
  have piece: "drop ov (take W (drop (Suc k * S) ?ws)) = take S (drop (W + k * S) ?ws)" for k
    by (simp add: drop_take W add.assoc add.commute add.left_commute)
  have "reassemble ov (map (\<lambda>k. join '' '' (take W (drop (k * S) ?ws))) [0..<Suc m]) =
        take W ?ws @ concat (map (\<lambda>k. drop ov (take W (drop (Suc k * S) ?ws))) [0..<m])"
    by (simp add: map_upt_Suc py_split_chunk[of W 0 "text", simplified] py_split_chunk comp_def
             del: upt_Suc)
  also have "\<dots> = take W ?ws @ take (m * S) (drop W ?ws)"
    by (simp only: piece tile_windows)
  also have "\<dots> = take (W + m * S) ?ws"
    by (rule take_add[symmetric])
  finally show ?thesis .
qed

lemma chunk_windows:
  assumes "0 \<le> overlap" "overlap < chunk_size"
      and "split_text text chunk_size overlap = Some cs" and "k < length cs"
  shows "py_split (cs ! k) =
           take (nat chunk_size) (drop (k * nat (chunk_size - overlap)) (py_split text))"
    and "length (py_split (cs ! k)) =
           min (nat chunk_size) (length (py_split text) - k * nat (chunk_size - overlap))"
    and "Suc k < length cs \<longrightarrow>
           drop (nat (chunk_size - overlap)) (py_split (cs ! k)) =
             take (nat overlap) (py_split (cs ! Suc k)) \<and>
           length (take (nat overlap) (py_split (cs ! Suc k))) =
             min (nat overlap) (length (py_split text) - Suc k * nat (chunk_size - overlap))"
proof -
  let ?ws = "py_split text"
  let ?S = "nat (chunk_size - overlap)" and ?W = "nat chunk_size"
  let ?m = "iterations (int (length ?ws)) (chunk_size - overlap)"
  have cs: "cs = map (\<lambda>k. join '' '' (take ?W (drop (k * ?S) ?ws))) [0..<?m]"
    using assms(3) by (simp add: split_text_windows[OF assms(1,2)])
  have nth: "py_split (cs ! j) = take ?W (drop (j * ?S) ?ws)" if "j < length cs" for j
    using that unfolding cs by (simp add: py_split_chunk)
  show a: "py_split (cs ! k) = take ?W (drop (k * ?S) ?ws)"
    using nth[OF assms(4)] .
  show "length (py_split (cs ! k)) = min ?W (length ?ws - k * ?S)"
    unfolding a by simp
  have W: "?W = nat overlap + ?S" using assms by simp
  show "Suc k < length cs \<longrightarrow>
           drop ?S (py_split (cs ! k)) = take (nat overlap) (py_split (cs ! Suc k)) \<and>
           length (take (nat overlap) (py_split (cs ! Suc k))) =
             min (nat overlap) (length ?ws - Suc k * ?S)"
  proof
    assume "Suc k < length cs"
    note b = nth[OF this]
    have "drop ?S (take ?W (drop (k * ?S) ?ws)) = take (nat overlap) (drop (Suc k * ?S) ?ws)"
      by (simp add: drop_take W add.commute)
    moreover have "take (nat overlap) (take ?W (drop (Suc k * ?S) ?ws)) =
                   take (nat overlap) (drop (Suc k * ?S) ?ws)"
      by (simp add: W min_def)
    ultimately show "drop ?S (py_split (cs ! k)) = take (nat overlap) (py_split (cs ! Suc k)) \<and>
           length (take (nat overlap) (py_split (cs ! Suc k))) =
             min (nat overlap) (length ?ws - Suc k * ?S)"
      unfolding a b by (simp add: min.commute)
  qed
qed

text \<open>Outside the precondition the loop does not return.\<close>

lemma split_loop_stuck:
  assumes "split_loop words chunk_size overlap i cs = Some r"
  shows "\<not> (chunk_size - overlap \<le> 0 \<and> i < int (length words))"
proof (rule split_loop.raw_induct
    [where P = "\<lambda>ws w ov j acc y. \<not> (w - ov \<le> 0 \<and> j < int (length ws))", OF _ assms])
  fix f :: "string list \<Rightarrow> int \<Rightarrow> int \<Rightarrow> int \<Rightarrow> string list \<Rightarrow> string list option"
  fix ws w ov j acc y
  assume IH: "\<And>ws w ov j acc y. f ws w ov j acc = Some y \<Longrightarrow> \<not> (w - ov \<le> 0 \<and> j < int (length ws))"
  assume eq: "(if j < int (length ws)
      then let chunk = join '' '' (py_slice ws j (j + w));
               chunks1 = acc @ [chunk]; i1 = j + (w - ov)
           in if int (length ws) \<le> i1 then Some chunks1
              else f ws w ov i1 chunks1
      else Some acc) = Some y"
  show "\<not> (w - ov \<le> 0 \<and> j < int (length ws))"
  proof
    assume a: "w - ov \<le> 0 \<and> j < int (length ws)"
    then have lt: "j + (w - ov) < int (length ws)" by simp
    with a eq have "f ws w ov (j + (w - ov)) (acc @ [join '' '' (py_slice ws j (j + w))]) = Some y"
      by (simp add: Let_def)
    from IH[OF this] a lt show False by simp
  qed
qed

lemma split_text_diverges:
  assumes "chunk_size \<le> overlap" "py_split t \<noteq> []"
  shows "split_text t chunk_size overlap = None"
proof (cases "split_text t chunk_size overlap")
  case None
  then show ?thesis .
next
  case (Some r)
  from assms(2) have "t \<noteq> []" by (auto simp: py_split_def)
  with Some assms(2) have "split_loop (py_split t) chunk_size overlap 0 [] = Some r"
    by (simp add: split_text_def)
  from split_loop_stuck[OF this] assms show ?thesis by simp
qed

section \<open>The chunker: claims\<close>

text \<open>
  C1 (as stated): for a text of \<open>n > 0\<close> words and \<open>o < w\<close>, \<open>split_text\<close> returns exactly
  \<open>ceil((n - o) / (w - o))\<close> chunks. This fails: the loop starts a chunk at every multiple of
  \<open>w - o\<close> below \<open>n\<close>. For the two words of \<open>a b\<close> with \<open>w = 2\<close>, \<open>o = 1\<close> it returns two
  chunks, where the stated formula gives one.
\<close>

theorem split_text_count_counterexample:
  "(1::int) < 2 \<and> length (py_split ''a b'') = 2 \<and>
   split_text ''a b'' 2 1 = Some [''a b'', ''b''] \<and>
   int (length [''a b'', ''b'']) \<noteq> claimed_chunk_count (length (py_split ''a b'')) 2 1"
  by (simp add: split_text_def py_split_def is_space_def split_loop.simps py_slice_def claimed_chunk_count_def)

text \<open>
  C1 (amended): for every text and every \<open>o < w\<close>, \<open>split_text\<close> returns, and the number of
  chunks is \<open>ceil(n / (w - o))\<close>, where \<open>n\<close> is the number of words of the text.
\<close>

theorem split_text_count:
  assumes "overlap < chunk_size"
  shows "\<exists>cs. split_text text chunk_size overlap = Some cs \<and>
           int (length cs) =
             \<lceil>real (length (py_split text)) / real_of_int (chunk_size - overlap)\<rceil>"
proof -
  let ?n = "int (length (py_split text))" and ?s = "chunk_size - overlap"
  have s: "0 < ?s" using assms by simp
  have "0 \<le> real_of_int ?n / real_of_int ?s" using s by simp
  then have "0 \<le> \<lceil>real_of_int ?n / real_of_int ?s\<rceil>" by simp
  then have "int (iterations ?n ?s) = \<lceil>real_of_int ?n / real_of_int ?s\<rceil>"
    by (simp add: iterations_ceiling)
  then show ?thesis
    by (simp add: split_text_closed[OF s])
qed

theorem split_text_count_witness:
  "(1::int) < 2 \<and>
   (\<exists>cs. split_text ''a b c'' 2 1 = Some cs \<and>
      int (length cs) = \<lceil>real (length (py_split ''a b c'')) / real_of_int (2 - 1)\<rceil>)"
  using split_text_count[of 1 2 "''a b c''"] by simp

text \<open>
  C2 (as stated): every chunk has exactly \<open>w\<close> words and consecutive chunks overlap in exactly
  \<open>o\<close> words. This fails at the end of the input, where the slice is cut short: the three
  words of \<open>a b c\<close> with \<open>w = 2\<close>, \<open>o = 0\<close> give a last chunk of one word.
\<close>

theorem split_text_shape_counterexample:
  "(0::int) < 2 \<and> split_text ''a b c'' 2 0 = Some [''a b'', ''c''] \<and>
   length (py_split ([''a b'', ''c''] ! 1)) \<noteq> nat 2"
  by (simp add: split_text_def py_split_def is_space_def split_loop.simps py_slice_def)

text \<open>
  C2 (amended): for \<open>0 \<le> o < w\<close>, chunk \<open>k\<close> (counting from 0) holds the words of the input from
  position \<open>k (w - o)\<close> on, at most \<open>w\<close> of them: it has \<open>min w (n - k (w - o))\<close> words, hence
  exactly \<open>w\<close> when that many remain. Chunk \<open>k\<close> from its position \<open>w - o\<close> on is the same
  word list as the first \<open>o\<close> words of chunk \<open>k + 1\<close>; these are \<open>min o (n - (k + 1) (w - o))\<close>
  words, hence exactly \<open>o\<close> when that many remain.
\<close>

theorem split_text_shape:
  assumes "0 \<le> overlap" "overlap < chunk_size"
      and "split_text text chunk_size overlap = Some cs" and "k < length cs"
  shows "py_split (cs ! k) =
           take (nat chunk_size) (drop (k * nat (chunk_size - overlap)) (py_split text)) \<and>
         length (py_split (cs ! k)) =
           min (nat chunk_size) (length (py_split text) - k * nat (chunk_size - overlap)) \<and>
         (Suc k < length cs \<longrightarrow>
           drop (nat (chunk_size - overlap)) (py_split (cs ! k)) =
             take (nat overlap) (py_split (cs ! Suc k)) \<and>
           length (take (nat overlap) (py_split (cs ! Suc k))) =
             min (nat overlap) (length (py_split text) - Suc k * nat (chunk_size - overlap)))"
  using chunk_windows[OF assms] by blast

theorem split_text_shape_witness:
  "(0::int) \<le> 2 \<and> (2::int) < 4 \<and>
   split_text ''a b c d e'' 4 2 = Some [''a b c d'', ''c d e'', ''e''] \<and>
   py_split ([''a b c d'', ''c d e'', ''e''] ! 1) = take (nat 4) (drop (1 * nat (4 - 2)) (py_split ''a b c d e'')) \<and>
   drop (nat (4 - 2)) (py_split ([''a b c d'', ''c d e'', ''e''] ! 1)) =
     take (nat 2) (py_split ([''a b c d'', ''c d e'', ''e''] ! Suc 1))"
proof -
  have s: "split_text ''a b c d e'' 4 2 = Some [''a b c d'', ''c d e'', ''e'']"
    by (simp add: split_text_def py_split_def is_space_def split_loop.simps py_slice_def)
  from split_text_shape[OF _ _ s, of 1] s show ?thesis
    by (simp add: py_split_def is_space_def)
qed

text \<open>
  C3: for \<open>0 \<le> o < w\<close>, the words of the first chunk followed by the words of every later
  chunk without its first \<open>o\<close> words are exactly the words of the input, in order.
\<close>

theorem split_text_roundtrip:
  assumes "0 \<le> overlap" "overlap < chunk_size"
  shows "\<exists>cs. split_text text chunk_size overlap = Some cs \<and>
           reassemble (nat overlap) cs = py_split text"
proof -
  let ?ws = "py_split text"
  let ?S = "nat (chunk_size - overlap)" and ?W = "nat chunk_size"
  let ?m = "iterations (int (length ?ws)) (chunk_size - overlap)"
  let ?cs = "map (\<lambda>k. join '' '' (take ?W (drop (k * ?S) ?ws))) [0..<?m]"
  note p = window_params(1,2)[OF assms] window_params(3)[OF assms, of "text"]
  have "reassemble (nat overlap) ?cs = ?ws"
  proof (cases ?m)
    case 0
    with p(3) show ?thesis by simp
  next
    case (Suc m)
    have "?W + m * ?S = nat overlap + ?m * ?S" using p(1) Suc by simp
    with p(3) have "length ?ws \<le> ?W + m * ?S" by simp
    then show ?thesis
      unfolding Suc by (simp only: reassemble_windows[OF p(1)] take_all)
  qed
  then show ?thesis
    by (simp only: split_text_windows[OF assms]) simp
qed

theorem split_text_roundtrip_witness:
  "(0::int) \<le> 2 \<and> (2::int) < 4 \<and>
   (\<exists>cs. split_text ''a b c d e'' 4 2 = Some cs \<and>
      reassemble (nat 2) cs = py_split ''a b c d e'')"
  using split_text_roundtrip[of 2 4 "''a b c d e''"] by simp

text \<open>
  C7: a text that is empty or consists of whitespace only yields no chunks, whatever the
  parameters.
\<close>

theorem split_text_blank:
  "\<forall>c\<in>set text. is_space c \<Longrightarrow> split_text text chunk_size overlap = Some []"
  by (simp add: split_text_def py_split_Nil_iff)

theorem split_text_blank_witness:
  "is_space CHR '' '' \<and> is_space (CHR 0x0A) \<and> is_space (CHR 0x09) \<and>
   split_text [CHR '' '', CHR 0x0A, CHR 0x09] 800 100 = Some []"
  using split_text_blank[of "[CHR '' '', CHR 0x0A, CHR 0x09]" 800 100]
  by (simp add: is_space_def)

text \<open>
  C8: for \<open>0 \<le> overlap < chunk_size\<close> the loop of \<open>split_text\<close> ends: the function returns a
  list of chunks. (For \<open>chunk_size \<le> overlap\<close> and a text with a word it does not, see
  \<open>split_text_diverges\<close>.)
\<close>

theorem split_text_terminates:
  "0 \<le> overlap \<Longrightarrow> overlap < chunk_size \<Longrightarrow>
   \<exists>cs. split_text text chunk_size overlap = Some cs"
  by (simp add: split_text_closed)

theorem split_text_terminates_witness:
  "(0::int) \<le> 1 \<and> (1::int) < 2 \<and> (\<exists>cs. split_text ''a b c'' 2 1 = Some cs)"
  using split_text_terminates[of 1 2 "''a b c''"] by simp

section \<open>Properties of the formatter\<close>

lemma last_dropWhile: "dropWhile P xs \<noteq> [] \<Longrightarrow> last (dropWhile P xs) = last xs"
  by (induction xs) (auto split: if_splits)

lemma strip_Nil_iff: "strip s = [] \<longleftrightarrow> (\<forall>c\<in>set s. is_space c)"
proof
  assume "strip s = []"
  then have "dropWhile is_space (rev (dropWhile is_space s)) = []" by (simp add: strip_def)
  then have "\<forall>c\<in>set (dropWhile is_space s). is_space c"
    by simp
  then have "dropWhile is_space s = []"
    by (metis hd_dropWhile hd_in_set)
  then show "\<forall>c\<in>set s. is_space c" by simp
next
  assume "\<forall>c\<in>set s. is_space c"
  then show "strip s = []" by (auto simp: strip_def dest: set_dropWhileD)
qed

lemma strip_ends:
  assumes "strip s \<noteq> []"
  shows "\<not> is_space (hd (strip s))" and "\<not> is_space (last (strip s))"
proof -
  let ?t = "dropWhile is_space s"
  let ?u = "dropWhile is_space (rev ?t)"
  have u: "?u \<noteq> []" using assms by (simp add: strip_def)
  then have t: "?t \<noteq> []" by (auto dest: set_dropWhileD)
  have "last ?u = last (rev ?t)" using u by (rule last_dropWhile)
  also have "\<dots> = hd ?t" using t by (simp add: last_rev)
  finally have "hd (rev ?u) = hd ?t" using u by (simp add: hd_rev)
  moreover have "\<not> is_space (hd ?t)" using t by (rule hd_dropWhile)
  ultimately show "\<not> is_space (hd (strip s))" by (simp add: strip_def)
  have "\<not> is_space (hd ?u)" using u by (rule hd_dropWhile)
  then show "\<not> is_space (last (strip s))" using u by (simp add: strip_def last_rev)
qed

lemma strip_id:
  assumes "s \<noteq> []" "\<not> is_space (hd s)" "\<not> is_space (last s)"
  shows "strip s = s"
proof -
  have a: "dropWhile is_space s = s" using assms(1,2) by (cases s) auto
  have "rev s \<noteq> []" "\<not> is_space (hd (rev s))" using assms(1,3) by (simp_all add: hd_rev)
  then have "dropWhile is_space (rev s) = rev s" by (cases "rev s") auto
  with a show ?thesis by (simp add: strip_def)
qed

lemma strip_strip: "strip (strip s) = strip s"
proof (cases "strip s = []")
  case True
  show ?thesis unfolding True by (simp add: strip_def)
next
  case False
  then show ?thesis using strip_ends[OF False] by (simp add: strip_id)
qed

lemma current_after_snoc:
  "current_after (ls @ [l]) = (case detect_header l of Some s \<Rightarrow> Some s | None \<Rightarrow> current_after ls)"
  by (induction ls) (auto split: option.splits)

lemma follows_label_Suc:
  "follows_label s ls (Suc j) =
     (detect_header (ls ! j) = Some s \<or> detect_header (ls ! j) = None \<and> follows_label s ls j)"
proof -
  have r: "[Suc i..<Suc j] = [Suc i..<j] @ [j]" if "i < j" for i
    using that by simp
  have "follows_label s ls (Suc j) =
        ((\<exists>i\<in>set [0..<j]. detect_header (ls ! i) = Some s \<and>
            (\<forall>k\<in>set [Suc i..<Suc j]. detect_header (ls ! k) = None)) \<or>
         detect_header (ls ! j) = Some s)"
    by (auto simp: follows_label_def)
  also have "(\<exists>i\<in>set [0..<j]. detect_header (ls ! i) = Some s \<and>
            (\<forall>k\<in>set [Suc i..<Suc j]. detect_header (ls ! k) = None)) =
        (detect_header (ls ! j) = None \<and> follows_label s ls j)"
    unfolding follows_label_def using r by auto
  finally show ?thesis by blast
qed

lemma follows_label_append:
  "j \<le> length ls \<Longrightarrow> follows_label s (ls @ xs) j = follows_label s ls j"
  unfolding follows_label_def by (auto simp: nth_append)

lemma follows_label_current:
  "follows_label s ls (length ls) \<longleftrightarrow> current_after ls = Some s"
proof (induction ls rule: rev_induct)
  case Nil
  then show ?case by (simp add: follows_label_def)
next
  case (snoc l ls)
  have "follows_label s (ls @ [l]) (Suc (length ls)) =
        (detect_header l = Some s \<or> detect_header l = None \<and> follows_label s ls (length ls))"
    by (simp add: follows_label_Suc follows_label_append)
  with snoc show ?case
    by (auto simp: current_after_snoc split: option.splits)
qed

lemma section_lines_snoc:
  "section_lines s (ls @ [l]) =
     section_lines s ls @ (if detect_header l = None \<and> current_after ls = Some s then [l] else [])"
proof -
  have "filter (\<lambda>j. detect_header ((ls @ [l]) ! j) = None \<and> follows_label s (ls @ [l]) j) [0..<length ls] =
        filter (\<lambda>j. detect_header (ls ! j) = None \<and> follows_label s ls j) [0..<length ls]"
    by (rule filter_cong) (auto simp: nth_append follows_label_append)
  moreover have "map (\<lambda>j. (ls @ [l]) ! j) (filter P [0..<length ls]) = map (\<lambda>j. ls ! j) (filter P [0..<length ls])" for P
    by (rule map_cong) (auto simp: nth_append)
  ultimately show ?thesis
    by (simp add: section_lines_def follows_label_append follows_label_current)
qed

lemma process_line_blank: "strip l = [] \<Longrightarrow> process_line st l = st"
  by (simp add: process_line_def)

lemma process_line_strip: "process_line st (strip l) = process_line st l"
  by (simp add: process_line_def strip_strip)

lemma foldl_process_content:
  "foldl process_line st raws = foldl process_line st (filter (\<lambda>l. l \<noteq> []) (map strip raws))"
  by (induction raws arbitrary: st) (simp_all add: process_line_blank process_line_strip)

lemma content_lines_ok: "l \<in> set (content_lines raw) \<Longrightarrow> l \<noteq> [] \<and> strip l = l"
  by (auto simp: content_lines_def strip_strip)

lemma section_lines_subset: "set (section_lines s ls) \<subseteq> set ls"
  by (auto simp: section_lines_def)

lemma join_Nil_iff: "\<forall>x\<in>set xs. x \<noteq> [] \<Longrightarrow> join sep xs = [] \<longleftrightarrow> xs = []"
  by (induction sep xs rule: join.induct) auto

lemma join_snoc: "join sep (xs @ [l]) = (if xs = [] then l else join sep xs @ sep @ l)"
  by (induction sep xs rule: join.induct) auto

lemma scan_lines:
  assumes "\<forall>l\<in>set ls. l \<noteq> [] \<and> strip l = l"
  shows "foldl process_line (None, \<lambda>_. []) ls =
         (current_after ls, \<lambda>s. join '' '' (section_lines s ls))"
  using assms
proof (induction ls rule: rev_induct)
  case Nil
  then show ?case by (simp add: section_lines_def)
next
  case (snoc l ls)
  then have IH: "foldl process_line (None, \<lambda>_. []) ls =
         (current_after ls, \<lambda>s. join '' '' (section_lines s ls))"
    and l: "l \<noteq> []" "strip l = l" by simp_all
  have ne: "\<forall>x\<in>set (section_lines s ls). x \<noteq> []" for s
    using snoc.prems section_lines_subset[of s ls] by auto
  let ?f = "\<lambda>s. join '' '' (section_lines s ls)"
  have step: "foldl process_line (None, \<lambda>_. []) (ls @ [l]) = process_line (current_after ls, ?f) l"
    by (simp add: IH)
  show ?case
  proof (cases "detect_header l")
    case (Some t)
    then have "process_line (current_after ls, ?f) l = (Some t, ?f)"
      by (simp add: process_line_def l)
    with Some show ?thesis
      unfolding step by (simp add: section_lines_snoc current_after_snoc)
  next
    case None
    show ?thesis
    proof (cases "current_after ls")
      case cn: None
      with None have "process_line (current_after ls, ?f) l = (None, ?f)"
        by (simp add: process_line_def l)
      with None cn show ?thesis
        unfolding step by (simp add: section_lines_snoc current_after_snoc)
    next
      case (Some c)
      have upd: "(\<lambda>s. join '' '' (section_lines s (ls @ [l]))) =
            ?f (c := if ?f c \<noteq> [] then ?f c @ '' '' @ l else l)"
        using None Some ne by (auto simp: fun_eq_iff section_lines_snoc join_snoc join_Nil_iff)
      have "process_line (current_after ls, ?f) l =
            (Some c, ?f (c := if ?f c \<noteq> [] then ?f c @ '' '' @ l else l))"
        using None Some by (simp add: process_line_def l)
      with None Some show ?thesis
        unfolding step upd by (simp add: current_after_snoc)
    qed
  qed
qed

lemma parse_sections_lines:
  "parse_sections raw s = join '' '' (section_lines s (content_lines raw))"
proof -
  have "foldl process_line (None, \<lambda>_. []) (split_on newline raw) =
        foldl process_line (None, \<lambda>_. []) (content_lines raw)"
    unfolding content_lines_def by (rule foldl_process_content)
  also have "\<dots> = (current_after (content_lines raw), \<lambda>s. join '' '' (section_lines s (content_lines raw)))"
    by (rule scan_lines) (simp add: content_lines_ok)
  finally show ?thesis by (simp add: parse_sections_def)
qed

lemma hd_join: "x \<noteq> [] \<Longrightarrow> hd (join sep (x # xs)) = hd x"
  by (cases xs) auto

lemma join_last_nonempty: "xs \<noteq> [] \<Longrightarrow> last xs \<noteq> [] \<Longrightarrow> join sep xs \<noteq> []"
  by (induction sep xs rule: join.induct) (auto split: if_splits)

lemma last_join: "xs \<noteq> [] \<Longrightarrow> last xs \<noteq> [] \<Longrightarrow> last (join sep xs) = last (last xs)"
proof (induction sep xs rule: join.induct)
  case (3 sep x y ys)
  then have "join sep (y # ys) \<noteq> []" using join_last_nonempty[of "y # ys" sep] by simp
  with 3 show ?case by simp
qed simp_all

lemma strip_join_lines:
  assumes "xs \<noteq> []" "\<forall>l\<in>set xs. l \<noteq> [] \<and> strip l = l"
  shows "join '' '' xs \<noteq> []" and "strip (join '' '' xs) = join '' '' xs"
proof -
  show ne: "join '' '' xs \<noteq> []" using assms by (simp add: join_Nil_iff)
  obtain x xs' where xs: "xs = x # xs'" using assms(1) by (cases xs) auto
  have ends: "\<not> is_space (hd l) \<and> \<not> is_space (last l)" if "l \<in> set xs" for l
    using that assms(2) strip_ends[of l] by auto
  have "\<not> is_space (hd (join '' '' xs))"
    using ends[of x] assms(2) unfolding xs by (simp add: hd_join)
  moreover have "\<not> is_space (last (join '' '' xs))"
    using ends[of "last xs"] assms by (simp add: last_join)
  ultimately show "strip (join '' '' xs) = join '' '' xs"
    using ne by (simp add: strip_id)
qed

lemma section_lines_ok: "l \<in> set (section_lines s (content_lines raw)) \<Longrightarrow> l \<noteq> [] \<and> strip l = l"
  using section_lines_subset[of s "content_lines raw"] content_lines_ok[of l raw] by auto

lemma render_content:
  assumes "section_lines s (content_lines raw) \<noteq> []"
  shows "render_section raw (parse_sections raw) s =
         ''### '' @ section_name s @ [newline] @ join '' '' (section_lines s (content_lines raw)) @
           [newline, newline]"
proof -
  have ok: "\<forall>l\<in>set (section_lines s (content_lines raw)). l \<noteq> [] \<and> strip l = l"
    using section_lines_ok by blast
  note j = strip_join_lines[OF assms ok]
  show ?thesis
    by (simp add: render_section_def parse_sections_lines content_block_def j)
qed

lemma section_lines_none:
  assumes "\<forall>l\<in>set ls. detect_header l = None"
  shows "section_lines s ls = []"
proof -
  have "\<not> follows_label s ls j" if "j < length ls" for j
    using that assms by (auto simp: follows_label_def)
  then show ?thesis by (simp add: section_lines_def)
qed

lemma render_placeholder:
  assumes "section_lines s (content_lines raw) = []" "strip raw \<noteq> []"
  shows "render_section raw (parse_sections raw) s = placeholder_block s"
  using assms by (simp add: render_section_def parse_sections_lines)

lemmas fmt_eval = format_response_def parse_sections_def process_line_def detect_header_def
  upper_def upper_char_def startswith_def strip_def is_space_def newline_def render_section_def
  placeholder_block_def content_block_def section_order_def report_header_def placeholder_def
  error_mark_def content_lines_def section_lines_def follows_label_def

section \<open>The formatter: claims\<close>

text \<open>
  C4: for a text in which all five labelled sections are present, the output has
  non-placeholder content under every label. The code does not do this for the layout its own
  prompt requests (\<open>ANSWER_PROMPT\<close>: \<open>1. KEY CONCEPT: [1-2 sentences]\<close>, \<dots>, \<open>5. SUMMARY: [\<dots>]\<close>),
  where the content of a section stands on the line of its label: every such line is taken as
  a label line and dropped, and the output shows the placeholder under all five labels.
\<close>

theorem format_response_prompt_layout:
  "contains ''KEY CONCEPT: a'' prompt_layout_response \<and>
   contains ''MATHEMATICAL FORMULATION: b'' prompt_layout_response \<and>
   contains ''MATHEMATICAL INTUITION: c'' prompt_layout_response \<and>
   contains ''PRACTICAL IMPLICATIONS: d'' prompt_layout_response \<and>
   contains ''SUMMARY: e'' prompt_layout_response \<and>
   format_response prompt_layout_response =
     report_header @ concat (map placeholder_block section_order)"
  by (simp add: prompt_layout_response_def fmt_eval)

text \<open>
  The sibling layout, content on the lines after the label line, is formatted as expected:
  when every label has a label line followed, before the next label line, by a non-blank line
  that is no label line, the output shows the accumulated content under every label and no
  placeholder.
\<close>

lemma format_response_following_lines:
  assumes "\<not> startswith raw ''Error:''" "\<not> startswith raw ''API Error:''"
      and "\<forall>s. section_lines s (content_lines raw) \<noteq> []"
  shows "format_response raw =
           report_header @
           concat (map (\<lambda>s. ''### '' @ section_name s @ [newline] @
                          join '' '' (section_lines s (content_lines raw)) @ [newline, newline])
                     section_order) \<and>
         (\<forall>s. parse_sections raw s = join '' '' (section_lines s (content_lines raw)) \<and>
              parse_sections raw s \<noteq> [])"
proof -
  have ne: "parse_sections raw s \<noteq> []" for s
    using assms(3) strip_join_lines(1)[of "section_lines s (content_lines raw)"] section_lines_ok[of _ s raw]
    by (simp add: parse_sections_lines)
  have m: "map (render_section raw (parse_sections raw)) section_order =
        map (\<lambda>s. ''### '' @ section_name s @ [newline] @
                  join '' '' (section_lines s (content_lines raw)) @ [newline, newline]) section_order"
    by (rule map_cong) (simp_all add: render_content assms(3))
  have "format_response raw =
        report_header @ concat (map (render_section raw (parse_sections raw)) section_order)"
    using assms(1,2) by (simp add: format_response_def)
  then have "format_response raw =
           report_header @
           concat (map (\<lambda>s. ''### '' @ section_name s @ [newline] @
                          join '' '' (section_lines s (content_lines raw)) @ [newline, newline])
                     section_order)"
    by (simp only: m)
  with ne show ?thesis
    by (simp only: parse_sections_lines) simp
qed

lemma format_response_following_lines_sample:
  "format_response five_sections =
     report_header @
     concat (map (\<lambda>s. ''### '' @ section_name s @ [newline] @
                    join '' '' (section_lines s (content_lines five_sections)) @ [newline, newline])
               section_order) \<and>
   section_lines KEY_CONCEPT (content_lines five_sections) = [''a''] \<and>
   section_lines MATHEMATICAL_FORMULATION (content_lines five_sections) = [''b''] \<and>
   section_lines MATHEMATICAL_INTUITION (content_lines five_sections) = [''c''] \<and>
   section_lines PRACTICAL_IMPLICATIONS (content_lines five_sections) = [''d''] \<and>
   section_lines SUMMARY (content_lines five_sections) = [''e'']"
proof -
  have sl: "section_lines KEY_CONCEPT (content_lines five_sections) = [''a'']"
    "section_lines MATHEMATICAL_FORMULATION (content_lines five_sections) = [''b'']"
    "section_lines MATHEMATICAL_INTUITION (content_lines five_sections) = [''c'']"
    "section_lines PRACTICAL_IMPLICATIONS (content_lines five_sections) = [''d'']"
    "section_lines SUMMARY (content_lines five_sections) = [''e'']"
    by code_simp+
  have h: "\<forall>s. section_lines s (content_lines five_sections) \<noteq> []"
  proof
    fix s show "section_lines s (content_lines five_sections) \<noteq> []"
      by (cases s) (simp_all add: sl)
  qed
  have e: "\<not> startswith five_sections ''Error:''" "\<not> startswith five_sections ''API Error:''"
    by (simp_all add: five_sections_def startswith_def)
  from format_response_following_lines[OF e h] have
    "format_response five_sections =
     report_header @
     concat (map (\<lambda>s. ''### '' @ section_name s @ [newline] @
                    join '' '' (section_lines s (content_lines five_sections)) @ [newline, newline])
               section_order)"
    by (rule conjunct1)
  with sl show ?thesis by (simp only: simp_thms)
qed

text \<open>
  C6 (as stated): whenever no label is recognised in the text, every label maps to the
  placeholder in the output. This fails for the empty text, where the guard \<open>if raw.strip()\<close>
  leaves the output with the header alone, and for a text that starts with \<open>Error:\<close>, which is
  returned between the error marks.
\<close>

theorem format_response_no_labels_counterexample:
  "split_on newline [] = [[]] \<and> detect_header (strip []) = None \<and>
   format_response [] = report_header \<and>
   \<not> contains (placeholder_block KEY_CONCEPT) (format_response []) \<and>
   format_response ''Error: x'' = error_mark @ ''Error: x**''"
  by (simp add: fmt_eval)

text \<open>
  C6 (amended): for every text that is not blank, starts with neither \<open>Error:\<close> nor
  \<open>API Error:\<close>, and in which no line is recognised as a label line, the output is the header
  followed by the placeholder block of every one of the five labels, in order.
\<close>

theorem format_response_no_labels:
  assumes "\<not> startswith raw ''Error:''" "\<not> startswith raw ''API Error:''"
      and "strip raw \<noteq> []"
      and "\<forall>l\<in>set (split_on newline raw). detect_header (strip l) = None"
  shows "format_response raw = report_header @ concat (map placeholder_block section_order)"
proof -
  have "\<forall>l\<in>set (content_lines raw). detect_header l = None"
    using assms(4) by (auto simp: content_lines_def)
  then have "section_lines s (content_lines raw) = []" for s
    by (rule section_lines_none)
  then have m: "map (render_section raw (parse_sections raw)) section_order =
        map placeholder_block section_order"
    using assms(3) by (simp add: render_placeholder)
  have "format_response raw =
        report_header @ concat (map (render_section raw (parse_sections raw)) section_order)"
    using assms(1,2) by (simp add: format_response_def)
  then show ?thesis by (simp only: m)
qed

theorem format_response_no_labels_witness:
  "format_response ''hello'' = report_header @ concat (map placeholder_block section_order)"
  using format_response_no_labels[of "''hello''"]
  by (simp add: startswith_def strip_def is_space_def newline_def detect_header_def upper_def upper_char_def)

text \<open>
  C10: a line detected as a label line contributes nothing to any section. The content of a
  section is made of exactly the non-blank lines that are no label lines and lie strictly after
  a label line of that section and before the next label line, joined by single blanks.
\<close>

theorem format_response_label_lines:
  "parse_sections raw s = join '' '' (section_lines s (content_lines raw))"
  by (rule parse_sections_lines)

theorem format_response_label_lines_witness:
  "parse_sections (''1. a'' @ [newline] @ ''b'') KEY_CONCEPT = ''b''"
proof -
  have "join '' '' (section_lines KEY_CONCEPT (content_lines (''1. a'' @ [newline] @ ''b''))) = ''b''"
    by (simp add: content_lines_def section_lines_def follows_label_def detect_header_def
          upper_def upper_char_def startswith_def strip_def is_space_def newline_def)
  then show ?thesis
    by (simp only: format_response_label_lines)
qed

section \<open>Properties of the inference request and the session\<close>

declare split_loop.simps [code]

lemma format_response_error:
  "startswith msg ''Error:'' \<or> startswith msg ''API Error:'' \<Longrightarrow>
   format_response msg = error_mark @ msg @ ''**''"
  by (simp add: format_response_def)

lemma error_messages_prefix:
  "startswith not_ready_message ''Error:''"
  "startswith timeout_message ''Error:''"
  "startswith (connection_message url) ''Error:''"
  "startswith (api_error_message status body) ''API Error:''"
  by (simp_all add: startswith_def not_ready_message_def timeout_message_def
        connection_message_def api_error_message_def)

lemma iterations_pos: "0 < s \<Longrightarrow> 0 < n \<Longrightarrow> 0 < iterations n s"
  using iterations_cover[of s n] by (cases "iterations n s") auto

lemma split_text_nonempty:
  assumes "strip t \<noteq> []"
  shows "\<exists>cs. split_text (strip t) 800 100 = Some cs \<and> cs \<noteq> []"
proof -
  have "\<not> is_space (hd (strip t))" using assms by (rule strip_ends)
  moreover have "hd (strip t) \<in> set (strip t)" using assms by simp
  ultimately have "py_split (strip t) \<noteq> []" by (auto simp: py_split_Nil_iff)
  then have "0 < iterations (int (length (py_split (strip t)))) (800 - 100)"
    by (simp add: iterations_pos)
  then show ?thesis
    by (simp add: split_text_closed)
qed

lemma extract_text_stripped:
  "extract_text_from_pdf f \<noteq> [] \<Longrightarrow> \<exists>t. extract_text_from_pdf f = strip t"
  by (cases f) (auto simp: extract_text_from_pdf_def)

lemma process_paper_chunks:
  assumes "extract_text_from_pdf f \<noteq> []"
  shows "\<exists>cs. split_text (extract_text_from_pdf f) 800 100 = Some cs \<and> cs \<noteq> []"
proof -
  obtain t where t: "extract_text_from_pdf f = strip t"
    using extract_text_stripped[OF assms] by blast
  with assms show ?thesis using split_text_nonempty[of t] by simp
qed

section \<open>The inference request and the session: claims\<close>

text \<open>
  C5: when the generation request times out, cannot connect, or is answered with a status
  other than 200, \<open>query_ollama\<close> returns a string (every exception is caught): the
  not-ready message when the readiness check failed before the request, else the timeout
  message, the connection message (with the configured base URL) or the API-error message
  (with the status code and the body). \<open>format_response\<close> returns that string between the
  error marks, not the five sections.
\<close>

theorem query_ollama_failure:
  assumes "post_generate net prompt = Raises Timeout \<or>
           post_generate net prompt = Raises ConnectionError \<or>
           (\<exists>resp. post_generate net prompt = Returns resp \<and> status_code resp \<noteq> 200)"
  shows "\<exists>msg. query_ollama net prompt = JStr msg \<and>
           (msg = not_ready_message \<or> msg = timeout_message \<or>
            msg = connection_message (base_url net) \<or>
            (\<exists>resp. post_generate net prompt = Returns resp \<and>
                    msg = api_error_message (status_code resp) (body_text resp))) \<and>
           format_response msg = error_mark @ msg @ ''**''"
proof (cases "check_model_ready (get_tags net)")
  case False
  then have "query_ollama net prompt = JStr not_ready_message"
    by (simp add: query_ollama_def)
  then show ?thesis
    by (simp add: format_response_error error_messages_prefix)
next
  case True
  from assms consider
    (timeout) "post_generate net prompt = Raises Timeout"
    | (connection) "post_generate net prompt = Raises ConnectionError"
    | (status) resp where "post_generate net prompt = Returns resp" "status_code resp \<noteq> 200"
    by blast
  then show ?thesis
  proof cases
    case timeout
    with True have "query_ollama net prompt = JStr timeout_message"
      by (simp add: query_ollama_def)
    then show ?thesis
      by (simp add: format_response_error error_messages_prefix)
  next
    case connection
    with True have "query_ollama net prompt = JStr (connection_message (base_url net))"
      by (simp add: query_ollama_def)
    then show ?thesis
      by (simp add: format_response_error error_messages_prefix)
  next
    case status
    with True have "query_ollama net prompt =
        JStr (api_error_message (status_code resp) (body_text resp))"
      by (simp add: query_ollama_def)
    with status(1) show ?thesis
      by (simp add: format_response_error error_messages_prefix)
  qed
qed

theorem query_ollama_failure_witness:
  "query_ollama failing_network ''q'' = JStr ''API Error: 500 - oops'' \<and>
   format_response ''API Error: 500 - oops'' = error_mark @ ''API Error: 500 - oops'' @ ''**''"
proof -
  have q: "query_ollama failing_network ''q'' = JStr ''API Error: 500 - oops''"
    by code_simp
  have h: "post_generate failing_network ''q'' = Raises Timeout \<or>
           post_generate failing_network ''q'' = Raises ConnectionError \<or>
           (\<exists>resp. post_generate failing_network ''q'' = Returns resp \<and> status_code resp \<noteq> 200)"
    by (simp add: failing_network_def)
  from query_ollama_failure[OF h] obtain msg where
    "query_ollama failing_network ''q'' = JStr msg" "format_response msg = error_mark @ msg @ ''**''"
    by blast
  with q show ?thesis by simp
qed

text \<open>
  C9: the invariant "processed implies chunks non-empty" holds in the initial session state,
  and every run of the script from a state that satisfies it ends in a state that satisfies
  it, whatever the button pressed and whatever the network and the uploaded file deliver. The
  reason is the third part: for an extracted text of more than 100 characters \<open>split_text\<close>
  with its default parameters returns at least one chunk.
\<close>

theorem session_invariant:
  "session_inv initial_state \<and>
   (session_inv s \<longrightarrow> (\<exists>s'. main net a s = Some s' \<and> session_inv s')) \<and>
   (length (extract_text_from_pdf f) > 100 \<longrightarrow>
      (\<exists>cs. split_text (extract_text_from_pdf f) 800 100 = Some cs \<and> cs \<noteq> []))"
proof (intro conjI impI)
  show "session_inv initial_state" by (simp add: session_inv_def initial_state_def)
next
  assume "length (extract_text_from_pdf f) > 100"
  then have "extract_text_from_pdf f \<noteq> []" by auto
  then show "\<exists>cs. split_text (extract_text_from_pdf f) 800 100 = Some cs \<and> cs \<noteq> []"
    by (rule process_paper_chunks)
next
  assume inv: "session_inv s"
  have s1: "session_inv (refresh_model_ready net s)"
    using inv by (simp add: session_inv_def refresh_model_ready_def)
  show "\<exists>s'. main net a s = Some s' \<and> session_inv s'"
  proof (cases a)
    case (ProcessPaper up)
    show ?thesis
    proof (cases up)
      case None
      with ProcessPaper s1 show ?thesis by (simp add: main_def)
    next
      case (Some g)
      show ?thesis
      proof (cases "extract_text_from_pdf g \<noteq> [] \<and> length (extract_text_from_pdf g) > 100")
        case True
        then obtain cs where "split_text (extract_text_from_pdf g) 800 100 = Some cs" "cs \<noteq> []"
          using process_paper_chunks[of g] by blast
        with True ProcessPaper Some show ?thesis
          by (simp add: main_def Let_def session_inv_def)
      next
        case False
        with ProcessPaper Some s1 show ?thesis by (auto simp: main_def Let_def)
      qed
    qed
  qed (use s1 in \<open>simp_all add: main_def\<close>)
qed

theorem session_invariant_witness:
  "session_inv initial_state \<and>
   (\<exists>s'. main failing_network (ProcessPaper (Some (Some [long_page, []]))) initial_state = Some s' \<and>
         session_inv s') \<and>
   map_option processed
     (main failing_network (ProcessPaper (Some (Some [long_page, []]))) initial_state) = Some True"
proof -
  have m: "map_option processed
     (main failing_network (ProcessPaper (Some (Some [long_page, []]))) initial_state) = Some True"
    by code_simp
  from session_invariant[of initial_state failing_network
      "ProcessPaper (Some (Some [long_page, []]))" None] m
  show ?thesis by blast
qed

end
